theory Spec2Isabelle
  imports Main
begin

section \<open>Python values and exceptions\<close>

text \<open>
  The exceptions the module can raise.  \<open>RecursionError\<close> is what Python raises when the
  recursion of \<open>invalidate\<close> or \<open>_search_first_invalid_layer\<close> exhausts the interpreter
  stack; \<open>Raised\<close> is an exception raised by a recorded target function.
\<close>

datatype error = KeyError | TypeError | NameError | IndexError | RecursionError | Raised string

text \<open>The kinds of parameter a signature can declare (\<open>inspect.Parameter.kind\<close>).\<close>

datatype kind =
    POSITIONAL_ONLY
  | POSITIONAL_OR_KEYWORD
  | VAR_POSITIONAL
  | KEYWORD_ONLY
  | VAR_KEYWORD

text \<open>
  The values that can be stored in the task dictionary, passed as arguments or held as a
  layer's data or metadata.  \<open>PSeq\<close> stands for the iterable containers (tuple, list, array),
  \<open>PDict\<close> for a dictionary with string keys, and \<open>PFun name params\<close> for a callable with
  its declared parameters: the name, the kind and the default, if any, of each.
\<close>

datatype pyval =
    PBool bool
  | PInt int
  | PStr string
  | PSeq "pyval list"
  | PDict "(string \<times> pyval) list"
  | PFun string "(string \<times> kind \<times> pyval option) list"

type_synonym parameter = "string \<times> kind \<times> pyval option"

fun callable :: "pyval \<Rightarrow> bool" where
  "callable (PFun fn params) = True"
| "callable v = False"

text \<open>\<open>for source in task\<close>: a string iterates over its characters (strings of length
  one), a container over its elements, a dictionary over its keys; anything else is not
  iterable.\<close>

fun py_iter :: "pyval \<Rightarrow> error + pyval list" where
  "py_iter (PStr s) = Inr (map (\<lambda>c. PStr [c]) s)"
| "py_iter (PSeq xs) = Inr xs"
| "py_iter (PDict kvs) = Inr (map (\<lambda>kv. PStr (fst kv)) kvs)"
| "py_iter v = Inl TypeError"

section \<open>class Workflow\<close>

text \<open>\<open>self._tasks\<close>: a dictionary in insertion order.\<close>

type_synonym workflow = "(string \<times> pyval) list"

text \<open>\<open>d[k] = v\<close>: an existing key keeps its position, a new key goes last.\<close>

fun dict_set :: "('k \<times> 'v) list \<Rightarrow> 'k \<Rightarrow> 'v \<Rightarrow> ('k \<times> 'v) list" where
  "dict_set [] k v = [(k, v)]"
| "dict_set ((k', v') # rest) k v =
     (if k' = k then (k, v) # rest else (k', v') # dict_set rest k v)"

fun signature :: "pyval \<Rightarrow> parameter list" where
  "signature (PFun fn params) = params"
| "signature v = []"

text \<open>
  \<open>sig.bind(*args, **kwargs)\<close>, \<open>bound.apply_defaults()\<close> and the values of
  \<open>bound.arguments\<close>, after \<open>inspect.Signature._bind\<close> and \<open>BoundArguments.apply_defaults\<close>:
  one value for each declared parameter, in the order of declaration, or \<open>TypeError\<close>.

  The second phase of \<open>_bind\<close> goes through the parameters that the positional arguments
  did not reach.  A parameter with a name takes its keyword argument (which is popped from
  \<open>kwargs\<close>), and a positional-only parameter given as a keyword is an error; without a
  keyword argument it takes its default (from \<open>apply_defaults\<close>), and one without default
  is an error.  A \<open>*args\<close> parameter left alone takes the empty tuple.  The keyword
  arguments \<open>left\<close> after all the pops go to the \<open>**kwargs\<close> parameter; without such
  a parameter, a keyword argument left over is an error.
\<close>

fun named :: "parameter \<Rightarrow> bool" where
  "named (n, k, d) = (k \<noteq> VAR_POSITIONAL \<and> k \<noteq> VAR_KEYWORD)"

fun keyword_value :: "parameter \<Rightarrow> (string \<times> pyval) list \<Rightarrow> (string \<times> pyval) list \<Rightarrow> error + pyval" where
  "keyword_value (n, k, d) kwargs left =
     (if k = VAR_KEYWORD then Inr (PDict left)
      else if k = VAR_POSITIONAL then Inr (PSeq [])
      else (case map_of kwargs n of
              Some v \<Rightarrow> if k = POSITIONAL_ONLY then Inl TypeError else Inr v
            | None \<Rightarrow> (case d of None \<Rightarrow> Inl TypeError | Some dv \<Rightarrow> Inr dv)))"

fun keyword_values ::
  "parameter list \<Rightarrow> (string \<times> pyval) list \<Rightarrow> (string \<times> pyval) list \<Rightarrow> error + pyval list"
where
  "keyword_values [] kwargs left = Inr []"
| "keyword_values (p # ps) kwargs left =
     (case keyword_value p kwargs left of
        Inl e \<Rightarrow> Inl e
      | Inr v \<Rightarrow>
          (case keyword_values ps kwargs left of
             Inl e \<Rightarrow> Inl e
           | Inr vs \<Rightarrow> Inr (v # vs)))"

definition bind_keywords :: "parameter list \<Rightarrow> (string \<times> pyval) list \<Rightarrow> error + pyval list" where
  "bind_keywords ps kwargs =
     (let left = filter (\<lambda>kv. fst kv \<notin> fst ` set (filter named ps)) kwargs in
      if left \<noteq> [] \<and> list_all (\<lambda>p. fst (snd p) \<noteq> VAR_KEYWORD) ps then Inl TypeError
      else keyword_values ps kwargs left)"

text \<open>
  The first phase of \<open>_bind\<close> pairs the positional arguments with the parameters from the
  left.  A positional argument that meets no parameter, or a keyword-only or \<open>**kwargs\<close>
  parameter, is an error; a \<open>*args\<close> parameter takes all the positional arguments that
  are left; another parameter takes the argument, unless a keyword argument names it too
  and it is not positional-only.  When the positional arguments are used up, the second
  phase starts at the next parameter; it starts after it when that is the \<open>*args\<close>
  parameter.
\<close>

fun bind_positional ::
  "parameter list \<Rightarrow> pyval list \<Rightarrow> (string \<times> pyval) list \<Rightarrow> error + pyval list"
where
  "bind_positional [] [] kwargs = bind_keywords [] kwargs"
| "bind_positional ((n, k, d) # ps) [] kwargs =
     (if k = VAR_POSITIONAL then
        (case bind_keywords ps kwargs of
           Inl e \<Rightarrow> Inl e
         | Inr vs \<Rightarrow> Inr (PSeq [] # vs))
      else if n \<in> fst ` set kwargs then
        (if k = POSITIONAL_ONLY then Inl TypeError
         else bind_keywords ((n, k, d) # ps) kwargs)
      else if k = VAR_KEYWORD \<or> d \<noteq> None then bind_keywords ((n, k, d) # ps) kwargs
      else Inl TypeError)"
| "bind_positional [] (a # as) kwargs = Inl TypeError"
| "bind_positional ((n, k, d) # ps) (a # as) kwargs =
     (if k = VAR_KEYWORD \<or> k = KEYWORD_ONLY then Inl TypeError
      else if k = VAR_POSITIONAL then
        (case bind_keywords ps kwargs of
           Inl e \<Rightarrow> Inl e
         | Inr vs \<Rightarrow> Inr (PSeq (a # as) # vs))
      else if n \<in> fst ` set kwargs \<and> k \<noteq> POSITIONAL_ONLY then Inl TypeError
      else (case bind_positional ps as kwargs of
              Inl e \<Rightarrow> Inl e
            | Inr vs \<Rightarrow> Inr (a # vs)))"

definition sig_bind ::
  "parameter list \<Rightarrow> pyval list \<Rightarrow> (string \<times> pyval) list \<Rightarrow> error + pyval list"
where
  "sig_bind params args kwargs = bind_positional params args kwargs"

definition set_task ::
  "workflow \<Rightarrow> string \<Rightarrow> pyval \<Rightarrow> pyval list \<Rightarrow> (string \<times> pyval) list \<Rightarrow> error + workflow"
where
  "set_task w name func_or_data args kwargs =
     (if \<not> callable func_or_data then Inr (dict_set w name func_or_data)
      else (case sig_bind (signature func_or_data) args kwargs of
              Inl e \<Rightarrow> Inl e
            | Inr bound \<Rightarrow> Inr (dict_set w name (PSeq (func_or_data # bound)))))"

definition remove :: "workflow \<Rightarrow> string \<Rightarrow> workflow" where
  "remove w name =
     (if name \<in> fst ` set w then filter (\<lambda>kv. fst kv \<noteq> name) w else w)"

text \<open>\<open>get\<close> calls \<open>dask_get\<close>, a name that the module neither defines nor imports: looking
  it up raises \<open>NameError\<close> before the task dictionary is read.\<close>

definition get :: "workflow \<Rightarrow> string \<Rightarrow> error + pyval" where
  "get w name = Inl NameError"

definition get_task :: "workflow \<Rightarrow> string \<Rightarrow> error + pyval" where
  "get_task w name = (case map_of w name of None \<Rightarrow> Inl KeyError | Some task \<Rightarrow> Inr task)"

text \<open>The body of the inner loop of \<open>roots\<close>, for one \<open>source\<close>.\<close>

fun roots_step :: "workflow \<Rightarrow> string list \<Rightarrow> pyval \<Rightarrow> string list" where
  "roots_step w origins (PStr s) =
     (if s \<notin> fst ` set w \<and> s \<notin> set origins then origins @ [s] else origins)"
| "roots_step w origins v = origins"

fun roots_loop :: "workflow \<Rightarrow> (string \<times> pyval) list \<Rightarrow> string list \<Rightarrow> error + string list" where
  "roots_loop w [] origins = Inr origins"
| "roots_loop w ((result, task) # rest) origins =
     (case py_iter task of
        Inl e \<Rightarrow> Inl e
      | Inr sources \<Rightarrow> roots_loop w rest (foldl (roots_step w) origins sources))"

definition roots :: "workflow \<Rightarrow> error + string list" where
  "roots w = roots_loop w w []"

text \<open>The body of the inner loop of \<open>followers_of\<close>, for one \<open>source\<close>.\<close>

definition followers_step :: "string \<Rightarrow> string \<Rightarrow> string list \<Rightarrow> pyval \<Rightarrow> string list" where
  "followers_step item result followers source =
     (if source = PStr item \<and> result \<notin> set followers then followers @ [result]
      else followers)"

fun followers_loop :: "string \<Rightarrow> (string \<times> pyval) list \<Rightarrow> string list \<Rightarrow> error + string list" where
  "followers_loop item [] followers = Inr followers"
| "followers_loop item ((result, task) # rest) followers =
     (case py_iter task of
        Inl e \<Rightarrow> Inl e
      | Inr sources \<Rightarrow>
          followers_loop item rest (foldl (followers_step item result) followers sources))"

definition followers_of :: "workflow \<Rightarrow> string \<Rightarrow> error + string list" where
  "followers_of w item = followers_loop item w []"

fun strs :: "pyval list \<Rightarrow> string list" where
  "strs [] = []"
| "strs (PStr s # vs) = s # strs vs"
| "strs (v # vs) = strs vs"

definition sources_of :: "workflow \<Rightarrow> string \<Rightarrow> error + string list" where
  "sources_of w item =
     (case map_of w item of
        None \<Rightarrow> Inr []
      | Some task \<Rightarrow> (case py_iter task of Inl e \<Rightarrow> Inl e | Inr sources \<Rightarrow> Inr (strs sources)))"

fun leafs_loop :: "workflow \<Rightarrow> string list \<Rightarrow> error + string list" where
  "leafs_loop w [] = Inr []"
| "leafs_loop w (l # ls) =
     (case followers_of w l of
        Inl e \<Rightarrow> Inl e
      | Inr fs \<Rightarrow>
          (case leafs_loop w ls of
             Inl e \<Rightarrow> Inl e
           | Inr r \<Rightarrow> Inr (if length fs = 0 then l # r else r)))"

definition leafs :: "workflow \<Rightarrow> error + string list" where
  "leafs w = leafs_loop w (map fst w)"

section \<open>class WorkflowManager\<close>

definition METADATA_WORKFLOW_VALID_KEY :: string where
  "METADATA_WORKFLOW_VALID_KEY = ''workflow_valid''"

record layer =
  data :: pyval
  metadata :: "string \<rightharpoonup> pyval"

text \<open>The manager: \<open>self.viewer.layers\<close>, indexed by layer name, and \<open>self.workflow\<close>.\<close>

record manager =
  layers :: "string \<rightharpoonup> layer"
  workflow :: workflow

definition viewer_has_layer :: "manager \<Rightarrow> string \<Rightarrow> bool" where
  "viewer_has_layer m name = (case layers m name of None \<Rightarrow> False | Some layer \<Rightarrow> True)"

text \<open>\<open>layer.metadata[METADATA_WORKFLOW_VALID_KEY] == False\<close>, and \<open>False\<close> when the key is
  missing.  In Python \<open>0 == False\<close> holds as well.\<close>

definition layer_invalid :: "layer \<Rightarrow> bool" where
  "layer_invalid layer =
     (case metadata layer METADATA_WORKFLOW_VALID_KEY of
        None \<Rightarrow> False
      | Some v \<Rightarrow> v = PBool False \<or> v = PInt 0)"

definition set_valid :: "bool \<Rightarrow> layer \<Rightarrow> layer" where
  "set_valid b layer =
     layer\<lparr>metadata := (metadata layer)(METADATA_WORKFLOW_VALID_KEY \<mapsto> PBool b)\<rparr>"

text \<open>
  \<open>invalidate\<close>.  The first argument is the number of stack frames left: each recursive
  call uses one, and a call with none left raises \<open>RecursionError\<close>.  The result is the
  exception raised, if any, and the manager with the writes made until then.
\<close>

fun invalidate :: "nat \<Rightarrow> manager \<Rightarrow> string list \<Rightarrow> error option \<times> manager" where
  "invalidate 0 m items = (Some RecursionError, m)"
| "invalidate (Suc d) m [] = (None, m)"
| "invalidate (Suc d) m (f # rest) =
     (case layers m f of
        None \<Rightarrow> invalidate (Suc d) m rest
      | Some layer \<Rightarrow>
          (let m1 = m\<lparr>layers := (layers m)(f \<mapsto> set_valid False layer)\<rparr> in
           case followers_of (workflow m1) f of
             Inl e \<Rightarrow> (Some e, m1)
           | Inr fs \<Rightarrow>
               (case invalidate d m1 fs of
                  (Some e, m2) \<Rightarrow> (Some e, m2)
                | (None, m2) \<Rightarrow> invalidate (Suc d) m2 rest)))"

text \<open>The first loop of \<open>_search_first_invalid_layer\<close>; the layer found is returned with
  its name.\<close>

fun first_invalid :: "manager \<Rightarrow> string list \<Rightarrow> (string \<times> layer) option" where
  "first_invalid m [] = None"
| "first_invalid m (i # rest) =
     (case layers m i of
        None \<Rightarrow> first_invalid m rest
      | Some layer \<Rightarrow> if layer_invalid layer then Some (i, layer) else first_invalid m rest)"

text \<open>\<open>_search_first_invalid_layer\<close>, with the number of stack frames left, and its second
  loop.\<close>

fun search_first_invalid_layer ::
    "nat \<Rightarrow> manager \<Rightarrow> string list \<Rightarrow> error + (string \<times> layer) option"
  and search_followers ::
    "nat \<Rightarrow> manager \<Rightarrow> string list \<Rightarrow> error + (string \<times> layer) option"
where
  "search_first_invalid_layer 0 m items = Inl RecursionError"
| "search_first_invalid_layer (Suc d) m items =
     (case first_invalid m items of
        Some found \<Rightarrow> Inr (Some found)
      | None \<Rightarrow> search_followers d m items)"
| "search_followers d m [] = Inr None"
| "search_followers d m (i # rest) =
     (case followers_of (workflow m) i of
        Inl e \<Rightarrow> Inl e
      | Inr fs \<Rightarrow>
          (case search_first_invalid_layer d m fs of
             Inl e \<Rightarrow> Inl e
           | Inr (Some found) \<Rightarrow> Inr (Some found)
           | Inr None \<Rightarrow> search_followers d m rest))"

text \<open>Calling a value: the behaviour of the recorded functions is given by \<open>call\<close>, from
  the function's name and its arguments to its result or the exception it raises.\<close>

fun py_call :: "(string \<Rightarrow> pyval list \<Rightarrow> error + pyval) \<Rightarrow> pyval \<Rightarrow> pyval list \<Rightarrow> error + pyval" where
  "py_call call (PFun fn params) arguments = call fn arguments"
| "py_call call v arguments = Inl TypeError"

fun resolve :: "manager \<Rightarrow> pyval \<Rightarrow> pyval" where
  "resolve m (PStr a) = (case layers m a of None \<Rightarrow> PStr a | Some layer \<Rightarrow> data layer)"
| "resolve m v = v"

definition compute :: "(string \<Rightarrow> pyval list \<Rightarrow> error + pyval) \<Rightarrow> manager \<Rightarrow> string \<Rightarrow> error + pyval" where
  "compute call m name =
     (case get_task (workflow m) name of
        Inl e \<Rightarrow> Inl e
      | Inr t \<Rightarrow>
          (case py_iter t of
             Inl e \<Rightarrow> Inl e
           | Inr [] \<Rightarrow> Inl IndexError
           | Inr (function # arguments) \<Rightarrow> py_call call function (map (resolve m) arguments)))"

text \<open>\<open>np.asarray\<close>: the model does not tell an array from the sequence it is made of.\<close>

definition asarray :: "pyval \<Rightarrow> pyval" where
  "asarray v = v"

text \<open>\<open>_update_invalid_layer\<close>: the value it returns (the value \<open>loop_run\<close> yields) or the
  exception it raises, and the manager afterwards.  Both of its return paths return
  \<open>None\<close>.  The assignment to \<open>layer.data\<close> is the write to the store; what the layer
  object does on its own when its data is assigned is not part of this module.\<close>

definition update_invalid_layer ::
  "nat \<Rightarrow> (string \<Rightarrow> pyval list \<Rightarrow> error + pyval) \<Rightarrow> manager
     \<Rightarrow> (error + (string \<times> pyval) option) \<times> manager"
where
  "update_invalid_layer d call m =
     (case roots (workflow m) of
        Inl e \<Rightarrow> (Inl e, m)
      | Inr rs \<Rightarrow>
          (case search_first_invalid_layer d m rs of
             Inl e \<Rightarrow> (Inl e, m)
           | Inr None \<Rightarrow> (Inr None, m)
           | Inr (Some (name, layer)) \<Rightarrow>
               (case compute call m name of
                  Inl e \<Rightarrow> (Inl e, m)
                | Inr v \<Rightarrow>
                    (Inr None, m\<lparr>layers := (layers m)(name \<mapsto> layer\<lparr>data := asarray v\<rparr>)\<rparr>))))"

text \<open>\<open>update_layer\<close>, the receiver of the values \<open>loop_run\<close> yields.\<close>

fun update_layer :: "(string \<times> pyval) option \<Rightarrow> manager \<Rightarrow> manager" where
  "update_layer None m = m"
| "update_layer (Some (name, d)) m =
     (case layers m name of
        None \<Rightarrow> m
      | Some layer \<Rightarrow> m\<lparr>layers := (layers m)(name \<mapsto> layer\<lparr>data := d\<rparr>)\<rparr>)"

text \<open>\<open>loop_run\<close> for a given number of rounds of its endless loop, each yielded value
  delivered to \<open>update_layer\<close>: the exception that ended the loop, if any, and the manager
  afterwards.\<close>

fun loop_run ::
  "nat \<Rightarrow> nat \<Rightarrow> (string \<Rightarrow> pyval list \<Rightarrow> error + pyval) \<Rightarrow> manager \<Rightarrow> error option \<times> manager"
where
  "loop_run 0 d call m = (None, m)"
| "loop_run (Suc n) d call m =
     (case update_invalid_layer d call m of
        (Inl e, m') \<Rightarrow> (Some e, m')
      | (Inr whatever, m') \<Rightarrow> loop_run n d call (update_layer whatever m'))"

text \<open>\<open>_layer_data_updated\<close> for the layer named \<open>source\<close>, and its loop over the followers
  of that layer.\<close>

fun data_updated_loop :: "nat \<Rightarrow> manager \<Rightarrow> string list \<Rightarrow> error option \<times> manager" where
  "data_updated_loop d m [] = (None, m)"
| "data_updated_loop d m (f # rest) =
     (if viewer_has_layer m f then
        (case followers_of (workflow m) f of
           Inl e \<Rightarrow> (Some e, m)
         | Inr fs \<Rightarrow>
             (case invalidate d m fs of
                (Some e, m') \<Rightarrow> (Some e, m')
              | (None, m') \<Rightarrow> data_updated_loop d m' rest))
      else data_updated_loop d m rest)"

definition layer_data_updated :: "nat \<Rightarrow> manager \<Rightarrow> string \<Rightarrow> error option \<times> manager" where
  "layer_data_updated d m source =
     (let m1 = (case layers m source of
                  None \<Rightarrow> m
                | Some layer \<Rightarrow> m\<lparr>layers := (layers m)(source \<mapsto> set_valid True layer)\<rparr>)
      in case followers_of (workflow m1) source of
           Inl e \<Rightarrow> (Some e, m1)
         | Inr fs \<Rightarrow> data_updated_loop d m1 fs)"

section \<open>Notions used in the statements\<close>

text \<open>Every stored recipe can be iterated, so that the graph queries do not raise
  \<open>TypeError\<close>.\<close>

definition iterable_tasks :: "workflow \<Rightarrow> bool" where
  "iterable_tasks w =
     list_all (\<lambda>kv. case py_iter (snd kv) of Inl e \<Rightarrow> False | Inr sources \<Rightarrow> True) w"

text \<open>The edges of the graph: \<open>b\<close> is among \<open>followers_of a\<close>.\<close>

definition follows :: "workflow \<Rightarrow> (string \<times> string) set" where
  "follows w = {(a, b). \<exists>fs. followers_of w a = Inr fs \<and> b \<in> set fs}"

text \<open>The names reachable from \<open>items\<close> along the edges, through any names.\<close>

definition below :: "workflow \<Rightarrow> string list \<Rightarrow> string set" where
  "below w items = (follows w)\<^sup>* `` set items"

text \<open>The edges that end in a name with a layer, and the names reachable from those of
  \<open>items\<close> that have a layer along such edges: every name on the way has a layer.\<close>

definition chain :: "manager \<Rightarrow> (string \<times> string) set" where
  "chain m = {(a, b). (a, b) \<in> follows (workflow m) \<and> viewer_has_layer m b}"

definition reached :: "manager \<Rightarrow> string list \<Rightarrow> string set" where
  "reached m items = (chain m)\<^sup>* `` {i. i \<in> set items \<and> viewer_has_layer m i}"

text \<open>The layers after the validity flag of every layer named in \<open>R\<close> has been set to
  \<open>False\<close>.\<close>

definition mark_invalid :: "string set \<Rightarrow> (string \<rightharpoonup> layer) \<Rightarrow> (string \<rightharpoonup> layer)" where
  "mark_invalid R L = (\<lambda>n. if n \<in> R then map_option (set_valid False) (L n) else L n)"

text \<open>The example graph \<open>B = double(A)\<close>, \<open>C = increment(B)\<close> over the root \<open>A\<close>, with all
  three layers in the viewer, and with the layer of \<open>B\<close> missing.\<close>

definition double :: pyval where
  "double = PFun ''double'' [(''image'', POSITIONAL_OR_KEYWORD, None)]"

definition increment :: pyval where
  "increment = PFun ''increment'' [(''image'', POSITIONAL_OR_KEYWORD, None)]"

definition example_workflow :: workflow where
  "example_workflow = [(''B'', PSeq [double, PStr ''A'']), (''C'', PSeq [increment, PStr ''B''])]"

definition flagged :: "bool \<Rightarrow> pyval \<Rightarrow> layer" where
  "flagged b v = \<lparr>data = v, metadata = [METADATA_WORKFLOW_VALID_KEY \<mapsto> PBool b]\<rparr>"

definition unflagged :: "pyval \<Rightarrow> layer" where
  "unflagged v = \<lparr>data = v, metadata = Map.empty\<rparr>"

definition full_manager :: manager where
  "full_manager =
     \<lparr>layers = [''A'' \<mapsto> flagged True (PSeq [PInt 1, PInt 2, PInt 3]),
                 ''B'' \<mapsto> flagged True (PSeq [PInt 2, PInt 4, PInt 6]),
                 ''C'' \<mapsto> flagged True (PSeq [PInt 3, PInt 5, PInt 7])],
      workflow = example_workflow\<rparr>"

definition gap_manager :: manager where
  "gap_manager =
     \<lparr>layers = [''A'' \<mapsto> flagged True (PSeq [PInt 1, PInt 2, PInt 3]),
                 ''C'' \<mapsto> flagged True (PSeq [PInt 3, PInt 5, PInt 7])],
      workflow = example_workflow\<rparr>"

definition example_rank :: "string \<Rightarrow> nat" where
  "example_rank n = (if n = ''A'' then 2 else if n = ''B'' then 1 else 0)"

text \<open>A graph with two roots: \<open>C = double(A)\<close>, \<open>D = increment(C)\<close>, \<open>E = double(B)\<close>; the
  layers of \<open>D\<close> and \<open>E\<close> are flagged invalid.\<close>

definition wide_manager :: manager where
  "wide_manager =
     \<lparr>layers = [''A'' \<mapsto> flagged True (PInt 1), ''B'' \<mapsto> flagged True (PInt 2),
                 ''C'' \<mapsto> flagged True (PInt 2), ''D'' \<mapsto> flagged False (PInt 0),
                 ''E'' \<mapsto> flagged False (PInt 0)],
      workflow = [(''C'', PSeq [double, PStr ''A'']), (''D'', PSeq [increment, PStr ''C'']),
                  (''E'', PSeq [double, PStr ''B''])]\<rparr>"

text \<open>The example graph with a layer for \<open>C\<close> only, flagged invalid.\<close>

definition orphan_manager :: manager where
  "orphan_manager =
     \<lparr>layers = [''C'' \<mapsto> flagged False (PInt 0)], workflow = example_workflow\<rparr>"

text \<open>The example graph with all three layers, \<open>B\<close> and \<open>C\<close> flagged invalid.\<close>

definition stale_manager :: manager where
  "stale_manager =
     \<lparr>layers = [''A'' \<mapsto> flagged True (PSeq [PInt 1, PInt 2, PInt 3]),
                 ''B'' \<mapsto> flagged False (PInt 0),
                 ''C'' \<mapsto> flagged False (PInt 0)],
      workflow = example_workflow\<rparr>"

text \<open>The name found by the scan, without its layer.\<close>

definition found_name :: "error + (string \<times> layer) option \<Rightarrow> error + string option" where
  "found_name r = (case r of Inl e \<Rightarrow> Inl e | Inr found \<Rightarrow> Inr (map_option fst found))"

text \<open>The names that a data change of a layer with the direct followers \<open>fs\<close> invalidates:
  those reachable, through names that all have a layer, from the followers of a member of
  \<open>fs\<close> that has a layer.\<close>

definition targets :: "manager \<Rightarrow> string list \<Rightarrow> string set" where
  "targets m fs =
     {n. \<exists>f gs. f \<in> set fs \<and> viewer_has_layer m f \<and>
                 followers_of (workflow m) f = Inr gs \<and> n \<in> reached m gs}"

text \<open>The graph \<open>B = double(A)\<close>, \<open>C = increment(B)\<close>, \<open>D = double(C)\<close>, with valid layers for
  \<open>A\<close>, \<open>B\<close> and \<open>D\<close> and none for \<open>C\<close>.\<close>

definition long_manager :: manager where
  "long_manager =
     \<lparr>layers = [''A'' \<mapsto> flagged False (PInt 1), ''B'' \<mapsto> flagged True (PInt 2),
                 ''D'' \<mapsto> flagged True (PInt 6)],
      workflow = [(''B'', PSeq [double, PStr ''A'']), (''C'', PSeq [increment, PStr ''B'']),
                  (''D'', PSeq [double, PStr ''C''])]\<rparr>"

text \<open>The behaviour of the two example functions, on sequences of integers, and a
  behaviour under which every function raises.\<close>

fun double_elem :: "pyval \<Rightarrow> pyval" where
  "double_elem (PInt i) = PInt (2 * i)"
| "double_elem v = v"

fun increment_elem :: "pyval \<Rightarrow> pyval" where
  "increment_elem (PInt i) = PInt (i + 1)"
| "increment_elem v = v"

fun example_call :: "string \<Rightarrow> pyval list \<Rightarrow> error + pyval" where
  "example_call fn [PSeq xs] =
     (if fn = ''double'' then Inr (PSeq (map double_elem xs))
      else if fn = ''increment'' then Inr (PSeq (map increment_elem xs))
      else Inl NameError)"
| "example_call fn arguments = Inl TypeError"

definition failing_call :: "string \<Rightarrow> pyval list \<Rightarrow> error + pyval" where
  "failing_call fn arguments = Inl (Raised ''boom'')"

text \<open>
  A call of a method of the manager or of its workflow, and what it gives: the value
  returned or the exception raised, and the manager afterwards.
\<close>

datatype request =
    Roots
  | Followers_of string
  | Sources_of string
  | Leafs
  | Get_task string
  | Invalidate "string list"
  | Set_task string pyval "pyval list" "(string \<times> pyval) list"
  | Remove string

datatype reply = Names "string list" | Task pyval | Nothing

definition names :: "error + string list \<Rightarrow> error + reply" where
  "names r = (case r of Inl e \<Rightarrow> Inl e | Inr ns \<Rightarrow> Inr (Names ns))"

fun perform :: "nat \<Rightarrow> request \<Rightarrow> manager \<Rightarrow> (error + reply) \<times> manager" where
  "perform d Roots m = (names (roots (workflow m)), m)"
| "perform d (Followers_of item) m = (names (followers_of (workflow m) item), m)"
| "perform d (Sources_of item) m = (names (sources_of (workflow m) item), m)"
| "perform d Leafs m = (names (leafs (workflow m)), m)"
| "perform d (Get_task name) m =
     ((case get_task (workflow m) name of Inl e \<Rightarrow> Inl e | Inr task \<Rightarrow> Inr (Task task)), m)"
| "perform d (Invalidate items) m =
     (case invalidate d m items of
        (Some e, m') \<Rightarrow> (Inl e, m')
      | (None, m') \<Rightarrow> (Inr Nothing, m'))"
| "perform d (Set_task name func_or_data args kwargs) m =
     (case set_task (workflow m) name func_or_data args kwargs of
        Inl e \<Rightarrow> (Inl e, m)
      | Inr w \<Rightarrow> (Inr Nothing, m\<lparr>workflow := w\<rparr>))"
| "perform d (Remove name) m = (Inr Nothing, m\<lparr>workflow := remove (workflow m) name\<rparr>)"

fun modifying :: "request \<Rightarrow> bool" where
  "modifying (Set_task name func_or_data args kwargs) = True"
| "modifying (Remove name) = True"
| "modifying request = False"






text \<open>
  The order in which the scan looks at names, to a given depth: first the names of the
  list, then, for each name of the list in order, all that the scan looks at from the
  followers of that name.
\<close>

fun scan_order :: "nat \<Rightarrow> workflow \<Rightarrow> string list \<Rightarrow> string list" where
  "scan_order 0 w items = []"
| "scan_order (Suc d) w items =
     items @ concat (map (\<lambda>i. case followers_of w i of
                                  Inl e \<Rightarrow> []
                                | Inr fs \<Rightarrow> scan_order d w fs) items)"

section \<open>Properties\<close>

subsection \<open>The graph queries\<close>

lemma set_foldl_followers_step:
  "set (foldl (followers_step item result) followers sources) =
     set followers \<union> (if PStr item \<in> set sources then {result} else {})"
  by (induction sources arbitrary: followers) (auto simp: followers_step_def)

lemma followers_loop_set:
  "followers_loop item w followers = Inr fs \<Longrightarrow>
     set fs = set followers \<union>
       {r. \<exists>t sources. (r, t) \<in> set w \<and> py_iter t = Inr sources \<and> PStr item \<in> set sources}"
proof (induction item w followers arbitrary: fs rule: followers_loop.induct)
  case (1 item followers)
  then show ?case by simp
next
  case (2 item result task rest followers)
  from "2.prems" obtain sources where it: "py_iter task = Inr sources"
    and run: "followers_loop item rest (foldl (followers_step item result) followers sources) = Inr fs"
    by (simp split: sum.splits)
  from "2.IH" [OF it run] have
    "set fs = set (foldl (followers_step item result) followers sources) \<union>
       {r. \<exists>t sources. (r, t) \<in> set rest \<and> py_iter t = Inr sources \<and> PStr item \<in> set sources}" .
  then show ?case
    using it by (auto simp: set_foldl_followers_step split: if_splits)
qed


lemma followers_loop_ok:
  "iterable_tasks w \<Longrightarrow> \<exists>fs. followers_loop item w followers = Inr fs"
proof (induction w arbitrary: followers)
  case Nil
  then show ?case by simp
next
  case (Cons kv w)
  obtain result task where kv: "kv = (result, task)" by (cases kv)
  from Cons.prems kv obtain sources where it: "py_iter task = Inr sources" and rest: "iterable_tasks w"
    by (auto simp: iterable_tasks_def split: sum.splits)
  from Cons.IH [OF rest] show ?case by (simp add: kv it)
qed

lemma followers_loop_raises:
  "\<not> iterable_tasks w \<Longrightarrow> followers_loop item w followers = Inl TypeError"
proof (induction w arbitrary: followers)
  case Nil
  then show ?case by (simp add: iterable_tasks_def)
next
  case (Cons kv w)
  obtain result task where kv: "kv = (result, task)" by (cases kv)
  show ?case
  proof (cases "py_iter task")
    case (Inl e)
    then have "e = TypeError" by (cases task) auto
    with Inl show ?thesis by (simp add: kv)
  next
    case (Inr sources)
    with Cons.prems kv have "\<not> iterable_tasks w" by (simp add: iterable_tasks_def)
    from Cons.IH [OF this] show ?thesis by (simp add: kv Inr)
  qed
qed

lemma followers_of_ok: "iterable_tasks w \<Longrightarrow> \<exists>fs. followers_of w item = Inr fs"
  by (simp add: followers_of_def followers_loop_ok)

lemma followers_of_raises: "\<not> iterable_tasks w \<Longrightarrow> followers_of w item = Inl TypeError"
  by (simp add: followers_of_def followers_loop_raises)

lemma followers_of_set:
  "followers_of w item = Inr fs \<Longrightarrow>
     set fs = {r. \<exists>t sources. (r, t) \<in> set w \<and> py_iter t = Inr sources \<and> PStr item \<in> set sources}"
  using followers_loop_set [of item w "[]" fs] by (simp add: followers_of_def)

lemma set_strs: "set (strs vs) = {s. PStr s \<in> set vs}"
  by (induction vs rule: strs.induct) auto


lemma map_of_unique:
  "distinct (map fst w) \<Longrightarrow> (k, v) \<in> set w \<Longrightarrow> map_of w k = Some v"
  by (rule map_of_is_SomeI)

lemma followers_sources_inverse:
  assumes dist: "distinct (map fst w)"
    and fol: "followers_of w n = Inr fs"
    and src: "sources_of w m = Inr ss"
  shows "m \<in> set fs \<longleftrightarrow> n \<in> set ss"
proof
  assume "m \<in> set fs"
  with followers_of_set [OF fol] obtain t sources where
    mem: "(m, t) \<in> set w" and it: "py_iter t = Inr sources" and n: "PStr n \<in> set sources"
    by blast
  from map_of_unique [OF dist mem] src it have "ss = strs sources"
    by (simp add: sources_of_def)
  with n show "n \<in> set ss" by (simp add: set_strs)
next
  assume n: "n \<in> set ss"
  show "m \<in> set fs"
  proof (cases "map_of w m")
    case None
    with src n show ?thesis by (simp add: sources_of_def)
  next
    case (Some t)
    with src obtain sources where it: "py_iter t = Inr sources" and ss: "ss = strs sources"
      by (cases "py_iter t") (simp_all add: sources_of_def)
    from Some have "(m, t) \<in> set w" by (rule map_of_SomeD)
    moreover from n ss have "PStr n \<in> set sources" by (simp add: set_strs)
    ultimately show ?thesis using it followers_of_set [OF fol] by blast
  qed
qed

subsection \<open>Evaluation of a name\<close>

text \<open>
  C7.  Evaluating a name without a recipe should fail with the not-found error, and
  evaluating a name whose recipe is a literal should return the literal.  In the graph
  \<open>{x: 5}\<close>, \<open>get\<close> raises \<open>NameError\<close> for the literal \<open>x\<close> and for the missing \<open>y\<close>
  alike, while \<open>get_task\<close> finds the literal and raises \<open>KeyError\<close> for \<open>y\<close>.
\<close>

theorem get_raises_NameError:
  "get [(''x'', PInt 5)] ''x'' = Inl NameError \<and>
   get [(''x'', PInt 5)] ''y'' = Inl NameError \<and>
   get_task [(''x'', PInt 5)] ''x'' = Inr (PInt 5) \<and>
   get_task [(''x'', PInt 5)] ''y'' = Inl KeyError"
  by (simp add: get_def get_task_def)

subsection \<open>Followers and sources\<close>

text \<open>
  C9.  \<open>followers_of\<close> and \<open>sources_of\<close> should be inverse relations in every graph.  In
  the graph \<open>{x: 5, y: (f, "a")}\<close> the sources of \<open>y\<close> are \<open>["a"]\<close>, but \<open>followers_of("a")\<close>
  raises \<open>TypeError\<close> when its scan of all recipes iterates the literal \<open>5\<close>, so it does
  not return \<open>y\<close>.
\<close>

theorem followers_of_raises_on_literal:
  "sources_of [(''x'', PInt 5), (''y'', PSeq [PFun ''f'' [(''image'', POSITIONAL_OR_KEYWORD, None)], PStr ''a''])] ''y''
     = Inr [''a''] \<and>
   followers_of [(''x'', PInt 5), (''y'', PSeq [PFun ''f'' [(''image'', POSITIONAL_OR_KEYWORD, None)], PStr ''a''])] ''a''
     = Inl TypeError"
  by (simp add: sources_of_def followers_of_def)

subsection \<open>Invalidation\<close>

lemma set_valid_False_idem: "set_valid False (set_valid False l) = set_valid False l"
  by (simp add: set_valid_def)

lemma mark_invalid_twice: "mark_invalid R (mark_invalid R' L) = mark_invalid (R \<union> R') L"
  by (rule ext) (simp add: mark_invalid_def option.map_comp comp_def set_valid_False_idem)

lemma mark_invalid_single:
  "L f = Some layer \<Longrightarrow> L(f \<mapsto> set_valid False layer) = mark_invalid {f} L"
  by (rule ext) (simp add: mark_invalid_def)

lemma mark_invalid_None: "(mark_invalid R L n = None) = (L n = None)"
  by (simp add: mark_invalid_def)

lemma has_layer_mark:
  "viewer_has_layer (m\<lparr>layers := mark_invalid R (layers m)\<rparr>) n = viewer_has_layer m n"
  by (cases "layers m n") (simp_all add: viewer_has_layer_def mark_invalid_def)

lemma chain_mark: "chain (m\<lparr>layers := mark_invalid R (layers m)\<rparr>) = chain m"
  by (simp add: chain_def has_layer_mark)

lemma reached_mark: "reached (m\<lparr>layers := mark_invalid R (layers m)\<rparr>) items = reached m items"
  by (simp add: reached_def chain_mark has_layer_mark)

lemma rtrancl_Image_step: "r\<^sup>* `` {a} = {a} \<union> r\<^sup>* `` (r `` {a})"
proof
  show "r\<^sup>* `` {a} \<subseteq> {a} \<union> r\<^sup>* `` (r `` {a})"
  proof
    fix x assume "x \<in> r\<^sup>* `` {a}"
    then have "(a, x) \<in> r\<^sup>*" by simp
    then show "x \<in> {a} \<union> r\<^sup>* `` (r `` {a})"
      by (cases rule: converse_rtranclE) auto
  qed
next
  show "{a} \<union> r\<^sup>* `` (r `` {a}) \<subseteq> r\<^sup>* `` {a}"
    by (auto intro: converse_rtrancl_into_rtrancl)
qed

lemma reached_Nil: "reached m [] = {}"
  by (simp add: reached_def)

lemma reached_Cons_no_layer:
  "layers m f = None \<Longrightarrow> reached m (f # rest) = reached m rest"
proof -
  assume "layers m f = None"
  then have "{i. i \<in> set (f # rest) \<and> viewer_has_layer m i} = {i. i \<in> set rest \<and> viewer_has_layer m i}"
    by (auto simp: viewer_has_layer_def)
  then show ?thesis by (simp add: reached_def)
qed

lemma reached_Cons_layer:
  assumes "layers m f = Some layer" and "followers_of (workflow m) f = Inr fs"
  shows "reached m (f # rest) = {f} \<union> reached m fs \<union> reached m rest"
proof -
  have has: "viewer_has_layer m f" using assms(1) by (simp add: viewer_has_layer_def)
  then have split: "{i. i \<in> set (f # rest) \<and> viewer_has_layer m i} =
      {f} \<union> {i. i \<in> set rest \<and> viewer_has_layer m i}"
    by auto
  have step: "chain m `` {f} = {i. i \<in> set fs \<and> viewer_has_layer m i}"
    using assms(2) by (auto simp: chain_def follows_def)
  have "reached m (f # rest) = (chain m)\<^sup>* `` {f} \<union> reached m rest"
    unfolding reached_def split by (rule Image_Un)
  also have "(chain m)\<^sup>* `` {f} = {f} \<union> reached m fs"
    using rtrancl_Image_step [of "chain m" f] by (simp add: step reached_def)
  finally show ?thesis .
qed

lemma mark_invalid_empty: "m\<lparr>layers := mark_invalid {} (layers m)\<rparr> = m"
  by (simp add: mark_invalid_def)

lemma invalidate_result:
  "invalidate d m items = (None, m') \<Longrightarrow>
     m' = m\<lparr>layers := mark_invalid (reached m items) (layers m)\<rparr>"
proof (induction d m items arbitrary: m' rule: invalidate.induct)
  case (1 m items)
  then show ?case by simp
next
  case (2 d m)
  then show ?case by (simp add: reached_Nil mark_invalid_empty)
next
  case (3 d m f rest)
  show ?case
  proof (cases "layers m f")
    case None
    with "3.prems" have run: "invalidate (Suc d) m rest = (None, m')" by simp
    from "3.IH"(1) [OF None run] show ?thesis
      by (simp add: reached_Cons_no_layer [OF None])
  next
    case (Some layer)
    define m1 where "m1 = m\<lparr>layers := (layers m)(f \<mapsto> set_valid False layer)\<rparr>"
    have m1: "m1 = m\<lparr>layers := mark_invalid {f} (layers m)\<rparr>"
      using mark_invalid_single [of "layers m" f layer] Some by (simp add: m1_def)
    have w1: "workflow m1 = workflow m" by (simp add: m1_def)
    from "3.prems" Some obtain fs where fs: "followers_of (workflow m1) f = Inr fs"
      by (cases "followers_of (workflow m1) f") (simp_all add: m1_def)
    from "3.prems" Some fs obtain m2 where
      run1: "invalidate d m1 fs = (None, m2)" and run2: "invalidate (Suc d) m2 rest = (None, m')"
      by (simp add: m1_def [symmetric] Let_def split: prod.splits option.splits)
    have eq1: "m2 = m1\<lparr>layers := mark_invalid (reached m1 fs) (layers m1)\<rparr>"
      by (rule "3.IH"(2) [OF Some m1_def fs run1])
    have eq2: "m' = m2\<lparr>layers := mark_invalid (reached m2 rest) (layers m2)\<rparr>"
      by (rule "3.IH"(3) [OF Some m1_def fs _ _ run2]) (simp_all add: run1)
    have r1: "reached m1 fs = reached m fs" by (simp add: m1 reached_mark)
    have m2: "m2 = m\<lparr>layers := mark_invalid (reached m fs \<union> {f}) (layers m)\<rparr>"
      by (simp add: eq1 r1) (simp add: m1 mark_invalid_twice)
    have r2: "reached m2 rest = reached m rest" by (simp add: m2 reached_mark)
    have "m' = m\<lparr>layers := mark_invalid (reached m rest \<union> (reached m fs \<union> {f})) (layers m)\<rparr>"
      by (simp add: eq2 r2) (simp add: m2 mark_invalid_twice)
    moreover have "reached m (f # rest) = reached m rest \<union> (reached m fs \<union> {f})"
      using reached_Cons_layer [OF Some, of fs rest] fs w1 by auto
    ultimately show ?thesis by simp
  qed
qed

lemma invalidate_workflow: "workflow (snd (invalidate d m items)) = workflow m"
proof (induction d m items rule: invalidate.induct)
  case (1 m items)
  then show ?case by simp
next
  case (2 d m)
  then show ?case by simp
next
  case (3 d m f rest)
  show ?case
  proof (cases "layers m f")
    case None
    with "3.IH"(1) show ?thesis by simp
  next
    case (Some layer)
    define m1 where "m1 = m\<lparr>layers := (layers m)(f \<mapsto> set_valid False layer)\<rparr>"
    have w1: "workflow m1 = workflow m" by (simp add: m1_def)
    show ?thesis
    proof (cases "followers_of (workflow m1) f")
      case (Inl e)
      with Some w1 show ?thesis by (simp add: m1_def)
    next
      case (Inr fs)
      obtain r m2 where run1: "invalidate d m1 fs = (r, m2)" by (cases "invalidate d m1 fs")
      from "3.IH"(2) [OF Some m1_def Inr] run1 have w2: "workflow m2 = workflow m1" by simp
      show ?thesis
      proof (cases r)
        case None
        from "3.IH"(3) [OF Some m1_def Inr _ _ ] run1 None
        have "workflow (snd (invalidate (Suc d) m2 rest)) = workflow m2" by simp
        with Some Inr run1 None w1 w2 show ?thesis by (simp add: m1_def [symmetric])
      next
        case (Some e)
        with \<open>layers m f = Some layer\<close> Inr run1 w1 w2 show ?thesis
          by (simp add: m1_def [symmetric])
      qed
    qed
  qed
qed

lemma invalidate_returns:
  assumes it: "iterable_tasks w"
    and rank: "\<And>a b. (a, b) \<in> follows w \<Longrightarrow> rank b < (rank a :: nat)"
  shows "workflow m = w \<Longrightarrow> (\<And>i. i \<in> set items \<Longrightarrow> rank i < d) \<Longrightarrow>
     fst (invalidate (Suc d) m items) = None"
proof (induction d arbitrary: m items)
  case 0
  then have "items = []" by (cases items) auto
  then show ?case by simp
next
  case (Suc d)
  from Suc.prems show ?case
  proof (induction items arbitrary: m)
    case Nil
    then show ?case by simp
  next
    case (Cons f rest)
    show ?case
    proof (cases "layers m f")
      case None
      with Cons show ?thesis by simp
    next
      case (Some layer)
      define m1 where "m1 = m\<lparr>layers := (layers m)(f \<mapsto> set_valid False layer)\<rparr>"
      have w1: "workflow m1 = w" using Cons.prems(1) by (simp add: m1_def)
      from followers_of_ok [OF it] obtain fs where fs: "followers_of w f = Inr fs" by blast
      have low: "\<And>b. b \<in> set fs \<Longrightarrow> rank b < d"
      proof -
        fix b assume "b \<in> set fs"
        with fs have "(f, b) \<in> follows w" by (auto simp: follows_def)
        from rank [OF this] Cons.prems(2) [of f] show "rank b < d" by simp
      qed
      obtain r m2 where run1: "invalidate (Suc d) m1 fs = (r, m2)"
        by (cases "invalidate (Suc d) m1 fs")
      from Suc.IH [of m1 fs] w1 low run1 have r: "r = None" by simp
      from invalidate_workflow [of "Suc d" m1 fs] run1 w1 have w2: "workflow m2 = w" by simp
      have "fst (invalidate (Suc (Suc d)) m2 rest) = None"
        using Cons.IH [of m2] w2 Cons.prems(2) by simp
      with Some fs run1 r w1 show ?thesis
        by (simp add: m1_def [symmetric])
    qed
  qed
qed

lemma reached_has_layer: "n \<in> reached m items \<Longrightarrow> viewer_has_layer m n"
proof -
  assume "n \<in> reached m items"
  then obtain i where i: "viewer_has_layer m i" and path: "(i, n) \<in> (chain m)\<^sup>*"
    by (auto simp: reached_def)
  from path i show ?thesis
    by (induction rule: rtrancl_induct) (auto simp: chain_def)
qed

lemma example_followers:
  "followers_of example_workflow a =
     Inr (if a = ''A'' then [''B''] else if a = ''B'' then [''C''] else [])"
  by (simp add: followers_of_def example_workflow_def followers_step_def double_def increment_def)

lemma example_iterable: "iterable_tasks example_workflow"
  by (simp add: iterable_tasks_def example_workflow_def)

lemma example_ranked:
  "\<forall>a b. (a, b) \<in> follows example_workflow \<longrightarrow> example_rank b < example_rank a"
  by (auto simp: follows_def example_followers example_rank_def split: if_splits)

text \<open>
  C1, as the code has it.  \<open>invalidate\<close> descends only from names that have a layer: in
  a graph whose recipes are iterable and acyclic (ranked by \<open>rank\<close>), with more stack
  frames than the rank of the items, it returns, leaves the workflow as it was, and sets
  the validity flag to \<open>False\<close> on exactly the layers reachable from the items through
  names that all have a layer; every other layer is unchanged.
\<close>

theorem invalidate_marks_recorded_chain:
  assumes "iterable_tasks (workflow m)"
    and "\<forall>a b. (a, b) \<in> follows (workflow m) \<longrightarrow> rank b < (rank a :: nat)"
    and "\<forall>i\<in>set items. rank i < d"
  shows "\<exists>m'. invalidate (Suc d) m items = (None, m') \<and> workflow m' = workflow m \<and>
     (\<forall>n. layers m' n =
        (if n \<in> reached m items then map_option (set_valid False) (layers m n) else layers m n)) \<and>
     (\<forall>n. n \<in> reached m items \<longrightarrow>
        (\<exists>l. layers m' n = Some l \<and> metadata l METADATA_WORKFLOW_VALID_KEY = Some (PBool False)))"
proof -
  obtain r m' where run: "invalidate (Suc d) m items = (r, m')"
    by (cases "invalidate (Suc d) m items")
  have "fst (invalidate (Suc d) m items) = None"
    using assms by (intro invalidate_returns [of "workflow m" rank]) auto
  with run have r: "r = None" by simp
  from invalidate_result [of "Suc d" m items m'] run r
  have m': "m' = m\<lparr>layers := mark_invalid (reached m items) (layers m)\<rparr>" by simp
  have flag: "\<exists>l. layers m' n = Some l \<and> metadata l METADATA_WORKFLOW_VALID_KEY = Some (PBool False)"
    if "n \<in> reached m items" for n
  proof -
    from reached_has_layer [OF that] obtain l0 where "layers m n = Some l0"
      by (cases "layers m n") (simp_all add: viewer_has_layer_def)
    with that show ?thesis by (simp add: m' mark_invalid_def set_valid_def)
  qed
  show ?thesis
    using run r flag by (simp add: m' mark_invalid_def)
qed

theorem invalidate_marks_recorded_chain_witness:
  "\<exists>m'. invalidate 4 full_manager [''A''] = (None, m') \<and>
     map_option layer_invalid (layers m' ''C'') = Some True"
proof -
  have "\<forall>i\<in>set [''A'']. example_rank i < 3" by (simp add: example_rank_def)
  from invalidate_marks_recorded_chain [of full_manager example_rank "[''A'']" 3, OF _ _ this]
    example_iterable example_ranked
  obtain m' where run: "invalidate (Suc 3) full_manager [''A''] = (None, m')"
    and all: "\<forall>n. n \<in> reached full_manager [''A''] \<longrightarrow>
        (\<exists>l. layers m' n = Some l \<and> metadata l METADATA_WORKFLOW_VALID_KEY = Some (PBool False))"
    by (auto simp: full_manager_def)
  have "(''A'', ''B'') \<in> chain full_manager" "(''B'', ''C'') \<in> chain full_manager"
    by (simp_all add: chain_def follows_def full_manager_def example_followers viewer_has_layer_def)
  then have "(''A'', ''C'') \<in> (chain full_manager)\<^sup>*" by auto
  then have "''C'' \<in> reached full_manager [''A'']"
    by (auto simp: reached_def viewer_has_layer_def full_manager_def)
  with all obtain l where "layers m' ''C'' = Some l"
    and "metadata l METADATA_WORKFLOW_VALID_KEY = Some (PBool False)" by blast
  then have "map_option layer_invalid (layers m' ''C'') = Some True"
    by (simp add: layer_invalid_def)
  with run show ?thesis by (simp add: eval_nat_numeral)
qed

text \<open>
  C1, as stated, fails: in the example graph without a layer for \<open>B\<close>, \<open>C\<close> is reachable
  from \<open>A\<close> through \<open>followers_of\<close> and has a layer, yet after \<open>invalidate(["A"])\<close> its
  flag is still \<open>True\<close>.
\<close>

theorem invalidate_stops_at_missing_layer:
  "followers_of (workflow gap_manager) ''A'' = Inr [''B''] \<and>
   followers_of (workflow gap_manager) ''B'' = Inr [''C''] \<and>
   fst (invalidate 4 gap_manager [''A'']) = None \<and>
   map_option (\<lambda>l. metadata l METADATA_WORKFLOW_VALID_KEY)
     (layers (snd (invalidate 4 gap_manager [''A''])) ''C'') = Some (Some (PBool True)) \<and>
   map_option layer_invalid (layers (snd (invalidate 4 gap_manager [''A''])) ''C'') = Some False"
  by (simp add: gap_manager_def example_followers eval_nat_numeral flagged_def set_valid_def
      layer_invalid_def METADATA_WORKFLOW_VALID_KEY_def)

subsection \<open>The scan for the first invalid layer\<close>

lemma first_invalid_Some:
  "first_invalid m items = Some (n, l) \<Longrightarrow>
     n \<in> set items \<and> layers m n = Some l \<and> layer_invalid l"
  by (induction items) (auto split: option.splits if_splits)

lemma first_invalid_None:
  "first_invalid m items = None \<Longrightarrow> i \<in> set items \<Longrightarrow> layers m i = Some l \<Longrightarrow>
     \<not> layer_invalid l"
  by (induction items) (auto split: option.splits if_splits)

lemma below_item: "i \<in> set items \<Longrightarrow> i \<in> below w items"
  by (auto simp: below_def)

lemma below_followers:
  assumes "i \<in> set items" and "followers_of w i = Inr fs" and "n \<in> below w fs"
  shows "n \<in> below w items"
proof -
  from assms(3) obtain b where b: "b \<in> set fs" and path: "(b, n) \<in> (follows w)\<^sup>*"
    by (auto simp: below_def)
  from assms(2) b have "(i, b) \<in> follows w" by (auto simp: follows_def)
  from converse_rtrancl_into_rtrancl [OF this path] have "(i, n) \<in> (follows w)\<^sup>*" .
  with assms(1) show ?thesis by (auto simp: below_def)
qed

lemma below_cases:
  assumes "n \<in> below w items"
  shows "n \<in> set items \<or> (\<exists>i fs. i \<in> set items \<and> followers_of w i = Inr fs \<and> n \<in> below w fs)"
proof -
  from assms obtain i where i: "i \<in> set items" and path: "(i, n) \<in> (follows w)\<^sup>*"
    by (auto simp: below_def)
  from path show ?thesis
  proof (cases rule: converse_rtranclE)
    case base
    with i show ?thesis by simp
  next
    case (step b)
    from step(1) obtain fs where "followers_of w i = Inr fs" and "b \<in> set fs"
      by (auto simp: follows_def)
    with step(2) i show ?thesis by (auto simp: below_def)
  qed
qed

lemma search_sound:
  "search_first_invalid_layer d m items = Inr (Some (n, l)) \<Longrightarrow>
     n \<in> below (workflow m) items \<and> layers m n = Some l \<and> layer_invalid l"
  "search_followers d m items = Inr (Some (n, l)) \<Longrightarrow>
     (\<exists>i fs. i \<in> set items \<and> followers_of (workflow m) i = Inr fs \<and> n \<in> below (workflow m) fs)
     \<and> layers m n = Some l \<and> layer_invalid l"
proof (induction d m items and d m items rule: search_first_invalid_layer_search_followers.induct)
  case (1 m items)
  then show ?case by simp
next
  case (2 d m items)
  show ?case
  proof (cases "first_invalid m items")
    case None
    with "2.prems" have "search_followers d m items = Inr (Some (n, l))" by simp
    from "2.IH" [OF None this] show ?thesis by (auto intro: below_followers)
  next
    case (Some found)
    with "2.prems" have "first_invalid m items = Some (n, l)" by simp
    from first_invalid_Some [OF this] show ?thesis by (simp add: below_item)
  qed
next
  case (3 d m)
  then show ?case by simp
next
  case (4 d m i rest)
  from "4.prems" obtain fs where fs: "followers_of (workflow m) i = Inr fs"
    by (cases "followers_of (workflow m) i") simp_all
  from "4.prems" fs obtain r where r: "search_first_invalid_layer d m fs = Inr r"
    by (cases "search_first_invalid_layer d m fs") simp_all
  show ?case
  proof (cases r)
    case None
    with "4.prems" fs r have "search_followers d m rest = Inr (Some (n, l))" by simp
    from "4.IH"(2) [OF fs r None this] show ?thesis by auto
  next
    case (Some found)
    with "4.prems" fs r have "search_first_invalid_layer d m fs = Inr (Some (n, l))" by simp
    from "4.IH"(1) [OF fs this] fs show ?thesis by auto
  qed
qed

lemma search_none:
  "search_first_invalid_layer d m items = Inr None \<Longrightarrow>
     n \<in> below (workflow m) items \<Longrightarrow> layers m n = Some l \<Longrightarrow> \<not> layer_invalid l"
  "search_followers d m items = Inr None \<Longrightarrow>
     i \<in> set items \<Longrightarrow> followers_of (workflow m) i = Inr fs \<Longrightarrow> n \<in> below (workflow m) fs \<Longrightarrow>
     layers m n = Some l \<Longrightarrow> \<not> layer_invalid l"
proof (induction d m items and d m items arbitrary: n l and i fs n l
    rule: search_first_invalid_layer_search_followers.induct)
  case (1 m items)
  then show ?case by simp
next
  case (2 d m items)
  from "2.prems"(1) have none: "first_invalid m items = None"
    by (cases "first_invalid m items") simp_all
  with "2.prems"(1) have run: "search_followers d m items = Inr None" by simp
  from below_cases [OF "2.prems"(2)] show ?case
  proof
    assume "n \<in> set items"
    from first_invalid_None [OF none this "2.prems"(3)] show ?thesis .
  next
    assume "\<exists>i fs. i \<in> set items \<and> followers_of (workflow m) i = Inr fs \<and> n \<in> below (workflow m) fs"
    then obtain i fs where "i \<in> set items" "followers_of (workflow m) i = Inr fs"
      "n \<in> below (workflow m) fs" by blast
    from "2.IH" [OF none run this "2.prems"(3)] show ?thesis .
  qed
next
  case (3 d m)
  then show ?case by simp
next
  case (4 d m j rest)
  from "4.prems"(1) obtain gs where gs: "followers_of (workflow m) j = Inr gs"
    by (cases "followers_of (workflow m) j") simp_all
  from "4.prems"(1) gs obtain r where r: "search_first_invalid_layer d m gs = Inr r"
    by (cases "search_first_invalid_layer d m gs") simp_all
  from "4.prems"(1) gs r have rn: "r = None" by (cases r) simp_all
  with "4.prems"(1) gs r have rest: "search_followers d m rest = Inr None" by simp
  show ?case
  proof (cases "i = j")
    case True
    with "4.prems"(3) gs have "fs = gs" by simp
    with "4.IH"(1) [OF gs] r rn "4.prems"(4,5) show ?thesis by simp
  next
    case False
    with "4.prems"(2) have "i \<in> set rest" by simp
    from "4.IH"(2) [OF gs r rn rest this "4.prems"(3,4,5)] show ?thesis .
  qed
qed

lemma search_returns:
  assumes it: "iterable_tasks (workflow m)"
    and rank: "\<And>a b. (a, b) \<in> follows (workflow m) \<Longrightarrow> rank b < (rank a :: nat)"
  shows "(\<forall>items. (\<forall>i\<in>set items. rank i < d) \<longrightarrow>
            (\<exists>r. search_followers d m items = Inr r)) \<and>
         (\<forall>items. (\<forall>i\<in>set items. rank i < d) \<longrightarrow>
            (\<exists>r. search_first_invalid_layer (Suc d) m items = Inr r))"
proof (induction d)
  case 0
  have "\<exists>r. search_followers 0 m items = Inr r" if "\<forall>i\<in>set items. rank i < 0" for items
  proof -
    from that have "items = []" by (cases items) auto
    then show ?thesis by simp
  qed
  then show ?case by (auto split: option.splits)
next
  case (Suc d)
  have loop: "\<exists>r. search_followers (Suc d) m items = Inr r"
    if "\<forall>i\<in>set items. rank i < Suc d" for items
    using that
  proof (induction items)
    case Nil
    then show ?case by simp
  next
    case (Cons i rest)
    from followers_of_ok [OF it] obtain fs where fs: "followers_of (workflow m) i = Inr fs"
      by blast
    have "\<forall>b\<in>set fs. rank b < d"
    proof
      fix b assume "b \<in> set fs"
      with fs have "(i, b) \<in> follows (workflow m)" by (auto simp: follows_def)
      from rank [OF this] Cons.prems show "rank b < d" by simp
    qed
    with Suc.IH obtain r where r: "search_first_invalid_layer (Suc d) m fs = Inr r" by blast
    from Cons.IH Cons.prems obtain r' where "search_followers (Suc d) m rest = Inr r'" by auto
    with fs r show ?case by (cases r) simp_all
  qed
  then show ?case by (auto split: option.splits)
qed

lemma first_invalid_append:
  "first_invalid m (xs @ ys) =
     (case first_invalid m xs of Some found \<Rightarrow> Some found | None \<Rightarrow> first_invalid m ys)"
  by (induction xs) (auto split: option.splits)

lemma search_scan_order:
  "search_first_invalid_layer d m items = Inr r \<Longrightarrow>
     r = first_invalid m (scan_order d (workflow m) items)"
  "search_followers d m items = Inr r \<Longrightarrow>
     r = first_invalid m (concat (map (\<lambda>i. case followers_of (workflow m) i of
                                                Inl e \<Rightarrow> []
                                              | Inr fs \<Rightarrow> scan_order d (workflow m) fs) items))"
proof (induction d m items and d m items arbitrary: r and r
    rule: search_first_invalid_layer_search_followers.induct)
  case (1 m items)
  then show ?case by simp
next
  case (2 d m items)
  show ?case
  proof (cases "first_invalid m items")
    case None
    with "2.prems" have "search_followers d m items = Inr r" by simp
    from "2.IH" [OF None this] None show ?thesis by (simp add: first_invalid_append)
  next
    case (Some found)
    with "2.prems" have "r = Some found" by simp
    with Some show ?thesis by (simp add: first_invalid_append)
  qed
next
  case (3 d m)
  then show ?case by simp
next
  case (4 d m i rest)
  from "4.prems" obtain fs where fs: "followers_of (workflow m) i = Inr fs"
    by (cases "followers_of (workflow m) i") simp_all
  from "4.prems" fs obtain r1 where r1: "search_first_invalid_layer d m fs = Inr r1"
    by (cases "search_first_invalid_layer d m fs") simp_all
  from "4.IH"(1) [OF fs r1] have here: "r1 = first_invalid m (scan_order d (workflow m) fs)" .
  show ?case
  proof (cases r1)
    case None
    with "4.prems" fs r1 have rest: "search_followers d m rest = Inr r" by simp
    from here None have scan: "first_invalid m (scan_order d (workflow m) fs) = None"
      by simp
    from "4.IH"(2) [OF fs r1 None rest] show ?thesis
      by (simp add: fs scan first_invalid_append)
  next
    case (Some found)
    with "4.prems" fs r1 have r: "r = Some found" by simp
    from here Some have scan: "first_invalid m (scan_order d (workflow m) fs) = Some found"
      by simp
    show ?thesis by (simp add: r fs scan first_invalid_append)
  qed
qed

text \<open>
  C2, as the code has it.  In a graph whose recipes are iterable and acyclic (ranked by
  \<open>rank\<close>), with more stack frames than the rank of the items, the scan returns, and
  its result is the first name, in the order \<open>scan_order\<close>, that has a layer flagged
  invalid: the names of the list at hand come first, in list order; then, for each name of
  the list in order and whether or not the name has a layer, all that the scan looks at
  from the followers of that name, depth-first.  So the first name of the list with a layer
  flagged invalid is the result if there is one, and otherwise an invalid layer found below
  the followers of an earlier name is the result, whatever lies below the later names.
  The result is none exactly when no name reachable from the list through
  \<open>followers_of\<close>, across names with or without layers, has a layer flagged invalid;
  a result is such a name with its layer.
\<close>

theorem search_is_depth_first:
  assumes "iterable_tasks (workflow m)"
    and "\<forall>a b. (a, b) \<in> follows (workflow m) \<longrightarrow> rank b < (rank a :: nat)"
    and "\<forall>i\<in>set items. rank i < d"
  shows "\<exists>r. search_first_invalid_layer (Suc d) m items = Inr r \<and>
     r = first_invalid m (scan_order (Suc d) (workflow m) items) \<and>
     (\<forall>found. first_invalid m items = Some found \<longrightarrow> r = Some found) \<and>
     (r = None \<longleftrightarrow>
        (\<forall>n l. n \<in> below (workflow m) items \<and> layers m n = Some l \<longrightarrow> \<not> layer_invalid l)) \<and>
     (\<forall>n l. r = Some (n, l) \<longrightarrow>
        n \<in> below (workflow m) items \<and> layers m n = Some l \<and> layer_invalid l) \<and>
     (\<forall>i rest fs found.
        items = i # rest \<and> first_invalid m items = None \<and>
        followers_of (workflow m) i = Inr fs \<and>
        search_first_invalid_layer d m fs = Inr (Some found) \<longrightarrow> r = Some found)"
proof -
  from search_returns [of m rank d] assms
  obtain r where run: "search_first_invalid_layer (Suc d) m items = Inr r" by blast
  have order: "r = first_invalid m (scan_order (Suc d) (workflow m) items)"
    by (rule search_scan_order(1) [OF run])
  have first: "r = Some found" if "first_invalid m items = Some found" for found
    using run that by simp
  have none: "\<not> layer_invalid l"
    if "r = None" "n \<in> below (workflow m) items" "layers m n = Some l" for n l
    using search_none(1) [of "Suc d" m items n l] run that by simp
  have some: "n \<in> below (workflow m) items \<and> layers m n = Some l \<and> layer_invalid l"
    if "r = Some (n, l)" for n l
    using search_sound(1) [of "Suc d" m items n l] run that by simp
  have iff: "r = None" if "\<forall>n l. n \<in> below (workflow m) items \<and> layers m n = Some l \<longrightarrow> \<not> layer_invalid l"
  proof (cases r)
    case None
    then show ?thesis .
  next
    case (Some found)
    obtain n l where "found = (n, l)" by (cases found)
    with Some some that show ?thesis by blast
  qed
  have dfs: "r = Some found"
    if "items = i # rest" "first_invalid m items = None"
      "followers_of (workflow m) i = Inr fs"
      "search_first_invalid_layer d m fs = Inr (Some found)" for i rest fs found
    using run that by simp
  have rest: "(\<forall>found. first_invalid m items = Some found \<longrightarrow> r = Some found) \<and>
     (r = None \<longleftrightarrow>
        (\<forall>n l. n \<in> below (workflow m) items \<and> layers m n = Some l \<longrightarrow> \<not> layer_invalid l)) \<and>
     (\<forall>n l. r = Some (n, l) \<longrightarrow>
        n \<in> below (workflow m) items \<and> layers m n = Some l \<and> layer_invalid l) \<and>
     (\<forall>i rest fs found.
        items = i # rest \<and> first_invalid m items = None \<and>
        followers_of (workflow m) i = Inr fs \<and>
        search_first_invalid_layer d m fs = Inr (Some found) \<longrightarrow> r = Some found)"
    using first none some iff dfs by blast
  show ?thesis
    by (rule exI [of _ r]) (rule conjI [OF run conjI [OF order rest]])
qed

theorem search_is_depth_first_witness:
  "search_first_invalid_layer 4 stale_manager [''A'']
     = Inr (Some (''B'', flagged False (PInt 0)))"
proof -
  have it: "iterable_tasks (workflow stale_manager)"
    by (simp add: stale_manager_def example_iterable)
  have rk: "\<forall>a b. (a, b) \<in> follows (workflow stale_manager) \<longrightarrow> example_rank b < example_rank a"
    using example_ranked by (simp add: stale_manager_def)
  have bd: "\<forall>i\<in>set [''A'']. example_rank i < 3" by (simp add: example_rank_def)
  from search_is_depth_first [OF it rk bd]
  obtain r where run: "search_first_invalid_layer (Suc 3) stale_manager [''A''] = Inr r"
    and order: "r = first_invalid stale_manager (scan_order (Suc 3) (workflow stale_manager) [''A''])"
    by (elim exE conjE)
  have "first_invalid stale_manager (scan_order (Suc 3) (workflow stale_manager) [''A''])
      = Some (''B'', flagged False (PInt 0))"
    by (simp add: stale_manager_def example_followers flagged_def layer_invalid_def
        eval_nat_numeral)
  with order have "r = Some (''B'', flagged False (PInt 0))" by simp
  with run have "search_first_invalid_layer (Suc 3) stale_manager [''A'']
      = Inr (Some (''B'', flagged False (PInt 0)))"
    by simp
  moreover have "(4::nat) = Suc 3" by simp
  ultimately show ?thesis by (simp only:)
qed

text \<open>
  C2, as stated, fails twice.  With the roots \<open>A\<close> and \<open>B\<close>, the invalid \<open>E\<close> is a
  follower of the root \<open>B\<close> and the invalid \<open>D\<close> lies two steps below the root \<open>A\<close>,
  yet the scan selects \<open>D\<close>.  And with no layer for the root \<open>A\<close> (nor for \<open>B\<close>), the scan still
  goes through the followers of \<open>A\<close> and selects \<open>C\<close>.
\<close>

theorem search_prefers_depth_and_crosses_missing_layers:
  "roots (workflow wide_manager) = Inr [''A'', ''B''] \<and>
   followers_of (workflow wide_manager) ''A'' = Inr [''C''] \<and>
   followers_of (workflow wide_manager) ''B'' = Inr [''E''] \<and>
   followers_of (workflow wide_manager) ''C'' = Inr [''D''] \<and>
   map_option layer_invalid (layers wide_manager ''E'') = Some True \<and>
   found_name (search_first_invalid_layer 5 wide_manager [''A'', ''B'']) = Inr (Some ''D'') \<and>
   roots (workflow orphan_manager) = Inr [''A''] \<and>
   \<not> viewer_has_layer orphan_manager ''A'' \<and>
   found_name (search_first_invalid_layer 5 orphan_manager [''A'']) = Inr (Some ''C'')"
  by (simp add: wide_manager_def orphan_manager_def example_workflow_def roots_def
      followers_of_def followers_step_def double_def increment_def flagged_def
      layer_invalid_def found_name_def viewer_has_layer_def eval_nat_numeral)

text \<open>
  C5, as the code has it.  A layer whose metadata has no validity entry is not invalid, and
  the scan never selects it, from whatever list, in whatever manager.
\<close>

theorem absent_flag_is_never_selected:
  assumes "metadata l METADATA_WORKFLOW_VALID_KEY = None"
  shows "\<not> layer_invalid l \<and>
     (\<forall>d m items n. search_first_invalid_layer d m items \<noteq> Inr (Some (n, l)))"
proof -
  from assms have no: "\<not> layer_invalid l" by (simp add: layer_invalid_def)
  have "search_first_invalid_layer d m items \<noteq> Inr (Some (n, l))" for d m items n
    using search_sound(1) [of d m items n l] no by blast
  with no show ?thesis by simp
qed

theorem absent_flag_is_never_selected_witness:
  "\<not> layer_invalid (unflagged (PInt 1)) \<and>
   search_first_invalid_layer 3 \<lparr>layers = [''A'' \<mapsto> unflagged (PInt 1)], workflow = example_workflow\<rparr>
     [''A''] \<noteq> Inr (Some (''A'', unflagged (PInt 1)))"
proof -
  have "metadata (unflagged (PInt 1)) METADATA_WORKFLOW_VALID_KEY = None"
    by (simp add: unflagged_def)
  from absent_flag_is_never_selected [OF this] show ?thesis by blast
qed

text \<open>
  C5, as stated, fails: the root \<open>A\<close> of the example graph is selected when its flag is
  \<open>False\<close> and is not selected when its metadata has no flag.
\<close>

theorem absent_flag_differs_from_false_flag:
  "layer_invalid (unflagged (PInt 1)) = False \<and>
   layer_invalid (flagged False (PInt 1)) = True \<and>
   roots example_workflow = Inr [''A''] \<and>
   search_first_invalid_layer 5
     \<lparr>layers = [''A'' \<mapsto> unflagged (PInt 1)], workflow = example_workflow\<rparr> [''A'']
     = Inr None \<and>
   search_first_invalid_layer 5
     \<lparr>layers = [''A'' \<mapsto> flagged False (PInt 1)], workflow = example_workflow\<rparr> [''A'']
     = Inr (Some (''A'', flagged False (PInt 1)))"
  by (simp add: example_workflow_def roots_def followers_of_def followers_step_def
      double_def increment_def flagged_def unflagged_def layer_invalid_def eval_nat_numeral)

subsection \<open>Data changes\<close>

lemma targets_Nil: "targets m [] = {}"
  by (simp add: targets_def)

lemma targets_Cons_no_layer:
  "\<not> viewer_has_layer m f \<Longrightarrow> targets m (f # rest) = targets m rest"
  by (auto simp: targets_def)

lemma targets_Cons_layer:
  "viewer_has_layer m f \<Longrightarrow> followers_of (workflow m) f = Inr gs \<Longrightarrow>
     targets m (f # rest) = reached m gs \<union> targets m rest"
  by (auto simp: targets_def)

lemma targets_mark: "targets (m\<lparr>layers := mark_invalid R (layers m)\<rparr>) fs = targets m fs"
  by (simp add: targets_def has_layer_mark reached_mark)

lemma data_updated_loop_result:
  "data_updated_loop d m fs = (None, m') \<Longrightarrow>
     m' = m\<lparr>layers := mark_invalid (targets m fs) (layers m)\<rparr>"
proof (induction fs arbitrary: m)
  case Nil
  then show ?case by (simp add: targets_Nil mark_invalid_empty)
next
  case (Cons f rest)
  show ?case
  proof (cases "viewer_has_layer m f")
    case False
    with Cons.prems have "data_updated_loop d m rest = (None, m')" by simp
    from Cons.IH [OF this] False show ?thesis by (simp add: targets_Cons_no_layer)
  next
    case True
    with Cons.prems obtain gs where gs: "followers_of (workflow m) f = Inr gs"
      by (cases "followers_of (workflow m) f") simp_all
    from Cons.prems True gs obtain m2 where
      run1: "invalidate d m gs = (None, m2)" and run2: "data_updated_loop d m2 rest = (None, m')"
      by (simp split: prod.splits option.splits)
    from invalidate_result [OF run1]
    have m2: "m2 = m\<lparr>layers := mark_invalid (reached m gs) (layers m)\<rparr>" .
    from Cons.IH [OF run2]
    have "m' = m2\<lparr>layers := mark_invalid (targets m2 rest) (layers m2)\<rparr>" .
    also have "targets m2 rest = targets m rest" by (simp add: m2 targets_mark)
    finally have "m' = m\<lparr>layers := mark_invalid (targets m rest \<union> reached m gs) (layers m)\<rparr>"
      by (simp add: m2 mark_invalid_twice)
    moreover have "targets m (f # rest) = targets m rest \<union> reached m gs"
      using targets_Cons_layer [OF True gs, of rest] by auto
    ultimately show ?thesis by simp
  qed
qed

lemma data_updated_loop_returns:
  assumes it: "iterable_tasks w"
    and rank: "\<And>a b. (a, b) \<in> follows w \<Longrightarrow> rank b < (rank a :: nat)"
  shows "workflow m = w \<Longrightarrow> (\<And>f. f \<in> set fs \<Longrightarrow> rank f < d) \<Longrightarrow>
     fst (data_updated_loop d m fs) = None"
proof (induction fs arbitrary: m)
  case Nil
  then show ?case by simp
next
  case (Cons f rest)
  show ?case
  proof (cases "viewer_has_layer m f")
    case False
    with Cons.IH [of m] Cons.prems show ?thesis by simp
  next
    case True
    from followers_of_ok [OF it] obtain gs where gs: "followers_of w f = Inr gs" by blast
    from Cons.prems(2) [of f] obtain d' where d: "d = Suc d'" and f: "rank f < Suc d'"
      by (cases d) auto
    have low: "\<And>g. g \<in> set gs \<Longrightarrow> rank g < d'"
    proof -
      fix g assume "g \<in> set gs"
      with gs have "(f, g) \<in> follows w" by (auto simp: follows_def)
      from rank [OF this] f show "rank g < d'" by simp
    qed
    obtain r m2 where run1: "invalidate d m gs = (r, m2)" by (cases "invalidate d m gs")
    from invalidate_returns [of w rank m gs d', OF it rank Cons.prems(1) low] run1 d
    have r: "r = None" by simp
    from invalidate_workflow [of d m gs] run1 Cons.prems(1) have w2: "workflow m2 = w" by simp
    have "fst (data_updated_loop d m2 rest) = None"
      using Cons.IH [of m2] w2 Cons.prems(2) by simp
    with True gs run1 r Cons.prems(1) show ?thesis by simp
  qed
qed

lemma rank_rtrancl:
  assumes rank: "\<And>a b. (a, b) \<in> follows w \<Longrightarrow> rank b < (rank a :: nat)"
  shows "(a, b) \<in> (follows w)\<^sup>* \<Longrightarrow> rank b \<le> rank a"
proof (induction rule: rtrancl_induct)
  case base
  then show ?case by simp
next
  case (step y z)
  from rank [OF step(2)] step(3) show ?case by simp
qed

lemma chain_subset: "(chain m)\<^sup>* \<subseteq> (follows (workflow m))\<^sup>*"
  by (rule rtrancl_mono) (auto simp: chain_def)

lemma targets_rank:
  assumes rank: "\<And>a b. (a, b) \<in> follows (workflow m) \<Longrightarrow> rank b < (rank a :: nat)"
    and fs: "followers_of (workflow m) source = Inr fs"
    and n: "n \<in> targets m fs"
  shows "rank n < rank source"
proof -
  from n obtain f gs where f: "f \<in> set fs" and gs: "followers_of (workflow m) f = Inr gs"
    and r: "n \<in> reached m gs"
    by (auto simp: targets_def)
  from r obtain g where g: "g \<in> set gs" and path: "(g, n) \<in> (chain m)\<^sup>*"
    by (auto simp: reached_def)
  from path chain_subset have "(g, n) \<in> (follows (workflow m))\<^sup>*" by blast
  from rank_rtrancl [of "workflow m" rank, OF rank this] have "rank n \<le> rank g" .
  moreover from gs g have "(f, g) \<in> follows (workflow m)" by (auto simp: follows_def)
  then have "rank g < rank f" by (rule rank)
  moreover from fs f have "(source, f) \<in> follows (workflow m)" by (auto simp: follows_def)
  then have "rank f < rank source" by (rule rank)
  ultimately show ?thesis by simp
qed

text \<open>
  What a data change does in a graph whose recipes are iterable and acyclic (ranked by
  \<open>rank\<close>), with at least as many stack frames as the rank of the changed layer:
  \<open>_layer_data_updated\<close> returns, leaves the workflow as it was, marks the changed layer
  valid, marks invalid the layers reachable, through names that all have a layer, from the
  followers of a direct follower that has a layer, and leaves every other layer as it was.
\<close>

lemma layer_data_updated_result:
  assumes "iterable_tasks (workflow m)"
    and "\<forall>a b. (a, b) \<in> follows (workflow m) \<longrightarrow> rank b < (rank a :: nat)"
    and "rank source \<le> d"
    and "followers_of (workflow m) source = Inr fs"
  shows "\<exists>m'. layer_data_updated d m source = (None, m') \<and> workflow m' = workflow m \<and>
     source \<notin> targets m fs \<and>
     (\<forall>n. layers m' n =
        (if n \<in> targets m fs then map_option (set_valid False) (layers m n)
         else if n = source then map_option (set_valid True) (layers m n)
         else layers m n))"
proof -
  define m1 where "m1 = (case layers m source of None \<Rightarrow> m
    | Some layer \<Rightarrow> m\<lparr>layers := (layers m)(source \<mapsto> set_valid True layer)\<rparr>)"
  have w1: "workflow m1 = workflow m" by (simp add: m1_def split: option.splits)
  have has1: "viewer_has_layer m1 n = viewer_has_layer m n" for n
    by (simp add: m1_def viewer_has_layer_def split: option.splits)
  have t1: "targets m1 fs = targets m fs"
    by (simp add: targets_def reached_def chain_def has1 w1)
  have l1: "layers m1 n = (if n = source then map_option (set_valid True) (layers m n)
      else layers m n)" for n
    by (simp add: m1_def split: option.splits)
  have rank: "\<And>a b. (a, b) \<in> follows (workflow m) \<Longrightarrow> rank b < rank a"
    using assms(2) by blast
  have low: "\<And>f. f \<in> set fs \<Longrightarrow> rank f < d"
  proof -
    fix f assume "f \<in> set fs"
    with assms(4) have "(source, f) \<in> follows (workflow m)" by (auto simp: follows_def)
    from rank [OF this] assms(3) show "rank f < d" by simp
  qed
  obtain r m' where run: "data_updated_loop d m1 fs = (r, m')"
    by (cases "data_updated_loop d m1 fs")
  from data_updated_loop_returns [of "workflow m" rank m1 fs d, OF assms(1) rank w1 low] run
  have r: "r = None" by simp
  from data_updated_loop_result [of d m1 fs m'] run r
  have m': "m' = m1\<lparr>layers := mark_invalid (targets m fs) (layers m1)\<rparr>" by (simp add: t1)
  have whole: "layer_data_updated d m source = (None, m')"
    using run r assms(4) w1 by (simp add: layer_data_updated_def m1_def [symmetric] Let_def)
  have self: "source \<notin> targets m fs"
    using targets_rank [of m rank source fs source, OF rank assms(4)] by auto
  have each: "layers m' n =
        (if n \<in> targets m fs then map_option (set_valid False) (layers m n)
         else if n = source then map_option (set_valid True) (layers m n)
         else layers m n)" for n
    using self by (auto simp: m' mark_invalid_def l1)
  show ?thesis
    using whole self each by (simp add: m' w1)
qed

text \<open>A follower without a layer ends the descent: \<open>D\<close> is a transitive follower of \<open>A\<close> and
  has a layer, but the only way to it leads through \<open>C\<close>, which has none; after the data
  of \<open>A\<close> has changed, the flag of \<open>D\<close> is still \<open>True\<close>.\<close>

lemma layer_data_updated_stops_at_missing_layer:
  "followers_of (workflow long_manager) ''A'' = Inr [''B''] \<and>
   followers_of (workflow long_manager) ''B'' = Inr [''C''] \<and>
   followers_of (workflow long_manager) ''C'' = Inr [''D''] \<and>
   fst (layer_data_updated 5 long_manager ''A'') = None \<and>
   map_option (\<lambda>l. metadata l METADATA_WORKFLOW_VALID_KEY)
     (layers (snd (layer_data_updated 5 long_manager ''A'')) ''D'') = Some (Some (PBool True)) \<and>
   map_option layer_invalid (layers (snd (layer_data_updated 5 long_manager ''A'')) ''D'')
     = Some False"
  by (simp add: long_manager_def layer_data_updated_def followers_of_def followers_step_def
      double_def increment_def viewer_has_layer_def flagged_def set_valid_def layer_invalid_def
      METADATA_WORKFLOW_VALID_KEY_def eval_nat_numeral)

text \<open>
  C6.  After a data change of a layer, the layer itself should be marked valid and all its
  transitive followers that have a layer, the direct ones included, invalid.  In the
  example graph with all three layers present and valid, \<open>B\<close> is the direct follower of
  \<open>A\<close> and has a layer; after the data of \<open>A\<close> has changed, \<open>A\<close> is valid and \<open>C\<close> is
  invalid, but the flag of \<open>B\<close> is still \<open>True\<close>: the layer of a direct follower is
  fetched and left alone, and the invalidation starts at its followers.
\<close>

theorem layer_data_updated_passes_over_direct_followers:
  "followers_of (workflow full_manager) ''A'' = Inr [''B''] \<and>
   viewer_has_layer full_manager ''B'' \<and>
   fst (layer_data_updated 5 full_manager ''A'') = None \<and>
   map_option layer_invalid (layers (snd (layer_data_updated 5 full_manager ''A'')) ''A'')
     = Some False \<and>
   map_option (\<lambda>l. metadata l METADATA_WORKFLOW_VALID_KEY)
     (layers (snd (layer_data_updated 5 full_manager ''A'')) ''B'') = Some (Some (PBool True)) \<and>
   map_option layer_invalid (layers (snd (layer_data_updated 5 full_manager ''A'')) ''B'')
     = Some False \<and>
   map_option layer_invalid (layers (snd (layer_data_updated 5 full_manager ''A'')) ''C'')
     = Some True"
  by (simp add: full_manager_def layer_data_updated_def example_followers
      viewer_has_layer_def flagged_def set_valid_def layer_invalid_def
      METADATA_WORKFLOW_VALID_KEY_def eval_nat_numeral)

subsection \<open>The background step\<close>

text \<open>
  C3.  The background step should write nothing to the store and hand a pair of name and
  payload to the receiver.  In the example graph with \<open>B\<close> and \<open>C\<close> flagged invalid, one
  call of \<open>_update_invalid_layer\<close> returns \<open>None\<close> and has itself replaced the data of the
  layer \<open>B\<close> in the store; the receiver, given \<open>None\<close>, does nothing.
\<close>

theorem update_invalid_layer_writes_store:
  "fst (update_invalid_layer 5 example_call stale_manager) = Inr None \<and>
   map_option data (layers stale_manager ''B'') = Some (PInt 0) \<and>
   map_option data (layers (snd (update_invalid_layer 5 example_call stale_manager)) ''B'')
     = Some (PSeq [PInt 2, PInt 4, PInt 6]) \<and>
   update_layer None stale_manager = stale_manager"
  by (simp add: update_invalid_layer_def stale_manager_def example_workflow_def roots_def
      followers_of_def followers_step_def double_def increment_def flagged_def
      layer_invalid_def compute_def get_task_def asarray_def eval_nat_numeral)

text \<open>The receiver on its own does what C3 asks of it: a pair for a name without a layer
  is dropped, a pair for a name with a layer replaces the data of that layer.\<close>

lemma update_layer_checks_layer:
  "layers m name = None \<Longrightarrow> update_layer (Some (name, v)) m = m"
  "layers m name = Some layer \<Longrightarrow>
     update_layer (Some (name, v)) m = m\<lparr>layers := (layers m)(name \<mapsto> layer\<lparr>data := v\<rparr>)\<rparr>"
  by simp_all

text \<open>
  C4, as the code has it.  When the function of the selected layer raises, the exception
  leaves \<open>_update_invalid_layer\<close> and ends \<open>loop_run\<close> in that round, however many rounds
  were to follow; the manager, and with it the data and the flag of the layer, is as
  before.
\<close>

theorem loop_run_ends_when_function_raises:
  assumes "roots (workflow m) = Inr rs"
    and "search_first_invalid_layer d m rs = Inr (Some (name, layer))"
    and "get_task (workflow m) name = Inr (PSeq (PFun fn params # arguments))"
    and "call fn (map (resolve m) arguments) = Inl e"
  shows "update_invalid_layer d call m = (Inl e, m) \<and> loop_run (Suc n) d call m = (Some e, m)"
proof -
  from assms(3,4) have "compute call m name = Inl e" by (simp add: compute_def)
  with assms(1,2) have "update_invalid_layer d call m = (Inl e, m)"
    by (simp add: update_invalid_layer_def)
  then show ?thesis by simp
qed

theorem loop_run_ends_when_function_raises_witness:
  "update_invalid_layer 5 failing_call stale_manager = (Inl (Raised ''boom''), stale_manager) \<and>
   loop_run (Suc 7) 5 failing_call stale_manager = (Some (Raised ''boom''), stale_manager)"
proof -
  have 1: "roots (workflow stale_manager) = Inr [''A'']"
    by (simp add: stale_manager_def example_workflow_def roots_def double_def increment_def)
  have 2: "search_first_invalid_layer 5 stale_manager [''A'']
      = Inr (Some (''B'', flagged False (PInt 0)))"
    by (simp add: stale_manager_def example_followers flagged_def layer_invalid_def
        eval_nat_numeral)
  have 3: "get_task (workflow stale_manager) ''B''
      = Inr (PSeq (PFun ''double'' [(''image'', POSITIONAL_OR_KEYWORD, None)] # [PStr ''A'']))"
    by (simp add: stale_manager_def example_workflow_def get_task_def double_def)
  have 4: "failing_call ''double'' (map (resolve stale_manager) [PStr ''A'']) = Inl (Raised ''boom'')"
    by (simp add: failing_call_def)
  from loop_run_ends_when_function_raises
    [of stale_manager "[''A'']" 5 "''B''" "flagged False (PInt 0)" "''double''"
       "[(''image'', POSITIONAL_OR_KEYWORD, None)]" "[PStr ''A'']" failing_call "Raised ''boom''" 7, OF 1 2 3 4]
  show ?thesis .
qed

text \<open>
  C4, as stated, fails: with a function that raises, a run of \<open>loop_run\<close> meant for three
  rounds ends with the exception, where a loop that caught the failure would have gone
  through its three rounds.
\<close>

theorem loop_run_crashes:
  "fst (loop_run 3 5 failing_call stale_manager) = Some (Raised ''boom'') \<and>
   fst (loop_run 3 5 example_call stale_manager) = None"
  by (simp add: update_invalid_layer_def stale_manager_def example_workflow_def roots_def
      followers_of_def followers_step_def double_def increment_def flagged_def
      layer_invalid_def compute_def get_task_def asarray_def failing_call_def eval_nat_numeral)

subsection \<open>Recording a recipe\<close>























subsection \<open>What changes the recipes\<close>

text \<open>
  C10.  Of the calls on the manager and its workflow, \<open>roots\<close>, \<open>followers_of\<close>,
  \<open>sources_of\<close>, \<open>leafs\<close>, \<open>get_task\<close> and \<open>invalidate\<close> leave the dictionary of recipes
  exactly as it was, whether they return or raise; only \<open>set\<close> and \<open>remove\<close> are left to
  change it.
\<close>

theorem queries_and_invalidate_keep_recipes:
  "\<not> modifying request \<Longrightarrow> workflow (snd (perform d request m)) = workflow m"
proof (cases request)
  case (Invalidate items)
  obtain r m' where run: "invalidate d m items = (r, m')" by (cases "invalidate d m items")
  with invalidate_workflow [of d m items] have "workflow m' = workflow m" by simp
  with Invalidate run show ?thesis by (cases r) simp_all
qed simp_all

theorem queries_and_invalidate_keep_recipes_witness:
  "workflow (snd (perform 4 (Invalidate [''A'']) full_manager)) = example_workflow \<and>
   workflow (snd (perform 4 (Followers_of ''A'') full_manager)) = example_workflow \<and>
   workflow (snd (perform 4 (Remove ''B'') full_manager)) = [(''C'', PSeq [increment, PStr ''B''])]"
proof -
  have "workflow (snd (perform 4 (Invalidate [''A'']) full_manager)) = workflow full_manager"
    by (rule queries_and_invalidate_keep_recipes) simp
  moreover have "workflow (snd (perform 4 (Followers_of ''A'') full_manager)) = workflow full_manager"
    by (rule queries_and_invalidate_keep_recipes) simp
  ultimately show ?thesis
    by (simp add: full_manager_def example_workflow_def remove_def)
qed

end
